theory Spec2Isabelle
  imports Complex_Main "HOL-Library.Multiset"
begin

section \<open>Data model\<close>

text \<open>
  The driver \<^verbatim>\<open>src/freebayes.cpp\<close> works on alleles, genotypes, genotype combinations and
  scored combinations. An allele is built by \<^verbatim>\<open>genotypeAllele(type, base, length)\<close> and the
  driver reads its \<^verbatim>\<open>type\<close> and \<^verbatim>\<open>length\<close> members; a genotype is a selection of alleles
  of the sample's ploidy; a combination assigns one genotype to every sample.
  The C++ type \<^verbatim>\<open>long double\<close> is idealised as \<^typ>\<open>real\<close> throughout: rounding, infinities and
  NaN are outside the model.
\<close>

datatype AlleleType =
  ALLELE_GENOTYPE | ALLELE_REFERENCE | ALLELE_MNP | ALLELE_SNP | ALLELE_INSERTION | ALLELE_DELETION

record Allele =
  alleleType :: AlleleType
  base :: string
  alleleLength :: nat

definition genotypeAllele :: "AlleleType \<Rightarrow> string \<Rightarrow> nat \<Rightarrow> Allele" where
  "genotypeAllele t b l = \<lparr>alleleType = t, base = b, alleleLength = l\<rparr>"

type_synonym Genotype = "Allele list"

type_synonym GenotypeCombo = "(string \<times> Genotype) list"

text \<open>
  A \<^verbatim>\<open>GenotypeComboResult\<close>: the members the driver reads (lines 319, 353-365, 380-384).
\<close>

record GenotypeComboResult =
  combo :: GenotypeCombo
  priorComboProb :: real
  probObsGivenGenotypes :: real
  priorProbGenotypeCombo :: real
  priorProbGenotypeComboG_Af :: real
  priorProbGenotypeComboAf :: real

text \<open>
  What the driver does where C++ leaves the behaviour undefined: \<^verbatim>\<open>back()\<close> and
  \<^verbatim>\<open>front()\<close> of an empty vector, and the log-sum-exp of no value at all.
\<close>

datatype error = BackOfEmptyVector | FrontOfEmptyVector | LogSumExpOfNothing

text \<open>
  Modelled from the spec: \<^verbatim>\<open>GenotypeCombo::isHomozygous\<close> (Genotype.cpp, not under src/)
  classifies a combination as homozygous when all samples are assigned a genotype with a single
  distinct allele, and as heterozygous when at least one sample has a mixed genotype. A
  genotype with a single distinct allele:
\<close>

definition homozygous :: "Genotype \<Rightarrow> bool" where
  "homozygous g = (length (remdups g) = 1)"

text \<open>
  Modelled from the spec: the classification of a whole combination by
  \<^verbatim>\<open>GenotypeCombo::isHomozygous\<close>, read at lines 302 and 354: every sample's genotype has
  a single distinct allele.
\<close>

definition isHomozygous :: "GenotypeCombo \<Rightarrow> bool" where
  "isHomozygous c = list_all (\<lambda>sg. homozygous (snd sg)) c"

section \<open>Genotype enumeration\<close>

text \<open>
  Modelled from the spec: \<^verbatim>\<open>multichoose\<close> (multichoose.h, not under src/) yields the
  selections of \<open>k\<close> items out of a list, unordered and with repetition, each once.
\<close>

fun multichoose :: "nat \<Rightarrow> 'a list \<Rightarrow> 'a list list" where
  "multichoose 0 xs = [[]]"
| "multichoose (Suc k) [] = []"
| "multichoose (Suc k) (x # xs) =
     map ((#) x) (multichoose k (x # xs)) @ multichoose (Suc k) xs"

text \<open>
  Modelled from the spec: \<^verbatim>\<open>allPossibleGenotypes(ploidy, genotypeAlleles)\<close> (Genotype.cpp, not
  under src/): given a ploidy and the candidate alleles, all distinct unordered-with-repetition
  combinations of size ploidy, each becoming one genotype.
\<close>

definition allPossibleGenotypes :: "nat \<Rightarrow> Allele list \<Rightarrow> Genotype list" where
  "allPossibleGenotypes ploidy potentialAlleles = multichoose ploidy potentialAlleles"

section \<open>Banded combination search with the homozygous combinations\<close>

text \<open>
  The driver passes \<^verbatim>\<open>sampleGenotypes\<close>: for every sample with data its name and its
  (genotype, log-likelihood) pairs, sorted by descending likelihood (lines 257-264).
\<close>

type_synonym SampleGenotypes = "string \<times> (Genotype \<times> real) list"

text \<open>
  Modelled from the spec: the ploidy of a sample is the size of the genotypes it holds (every
  genotype's ploidy matches the sample's configured ploidy); the driver's
  \<^verbatim>\<open>parser->currentSamplePloidy\<close> is not under src/.
\<close>

definition samplePloidy :: "SampleGenotypes \<Rightarrow> nat" where
  "samplePloidy sg = (case snd sg of [] \<Rightarrow> 0 | gl # _ \<Rightarrow> length (fst gl))"

text \<open>
  Modelled from the spec: the all-homozygous combination of an allele assigns every sample the
  genotype that holds this allele only, at the sample's ploidy.
\<close>

definition allHomozygousCombo :: "SampleGenotypes list \<Rightarrow> Allele \<Rightarrow> GenotypeCombo" where
  "allHomozygousCombo sampleGenotypes a =
     map (\<lambda>sg. (fst sg, replicate (samplePloidy sg) a)) sampleGenotypes"

text \<open>
  Modelled from the spec: the output is a set of distinct combinations, so a combination is
  added only if it is not already present.
\<close>

definition includeCombo :: "GenotypeCombo \<Rightarrow> GenotypeCombo list \<Rightarrow> GenotypeCombo list" where
  "includeCombo c combos = (if c \<in> set combos then combos else combos @ [c])"

text \<open>
  Modelled from the spec: \<^verbatim>\<open>bandedGenotypeCombinationsIncludingAllHomozygousCombos\<close>
  (Genotype.cpp, not under src/; called at lines 275-282). Steps 2, 3 and 5 of the banded
  search (seed with the best combination, substitute next-best genotypes within the band
  width \<open>WB\<close> and total band \<open>TB\<close>, stop at the step cap) are the parameter
  \<open>bandedGenotypeCombinations\<close>: any function of the sorted per-sample genotypes and the
  three tunables. Step 4 then force-includes the all-homozygous combination of every
  candidate allele; the output holds distinct combinations, so one that the walk reached
  is not added again.
\<close>

definition bandedGenotypeCombinationsIncludingAllHomozygousCombos ::
  "(SampleGenotypes list \<Rightarrow> int \<Rightarrow> int \<Rightarrow> real \<Rightarrow> GenotypeCombo list) \<Rightarrow>
   SampleGenotypes list \<Rightarrow> Allele list \<Rightarrow> int \<Rightarrow> int \<Rightarrow> real \<Rightarrow> GenotypeCombo list" where
  "bandedGenotypeCombinationsIncludingAllHomozygousCombos bandedGenotypeCombinations
       sampleGenotypes genotypeAlleles WB TB genotypeComboStepMax =
     fold (\<lambda>a combos. includeCombo (allHomozygousCombo sampleGenotypes a) combos)
       genotypeAlleles
       (bandedGenotypeCombinations sampleGenotypes WB TB genotypeComboStepMax)"

section \<open>Posterior aggregation (lines 292-372)\<close>

text \<open>
  Modelled from the spec: \<^verbatim>\<open>GenotypeComboResultSorter\<close> (not under src/) is the comparison
  of \<^verbatim>\<open>sort\<close> at lines 295 and 312; it orders results descending by total score.
\<close>

definition gcrSorter :: "GenotypeComboResult \<Rightarrow> GenotypeComboResult \<Rightarrow> bool" where
  "gcrSorter gc1 gc2 = (priorComboProb gc1 > priorComboProb gc2)"

text \<open>
  Lines 295 and 312 call \<^verbatim>\<open>sort\<close> of the C++ standard library (\<^verbatim>\<open>std::sort\<close>), which is no
  code of this repository. The C++ standard fixes its result up to the order of equivalent
  elements, which it leaves open (\<^verbatim>\<open>std::stable_sort\<close> is the call that keeps it): the
  output is a permutation of the input in which no element compares before an earlier one.
  \<open>std_sort cmp xs ys\<close> says that \<open>ys\<close> is a result the call may leave for the input
  \<open>xs\<close>.
\<close>

definition std_sort :: "('a \<Rightarrow> 'a \<Rightarrow> bool) \<Rightarrow> 'a list \<Rightarrow> 'a list \<Rightarrow> bool" where
  "std_sort cmp xs ys = (mset ys = mset xs \<and> sorted_wrt (\<lambda>a b. \<not> cmp b a) ys)"

text \<open>
  Lines 301-306: while the kept results and the set-aside homozygous ones together exceed
  the depth, the last kept result is set aside if homozygous and erased. \<^verbatim>\<open>back()\<close> is read
  without a test for an empty vector.
\<close>

function truncationLoop ::
  "nat \<Rightarrow> GenotypeComboResult list \<Rightarrow> GenotypeComboResult list \<Rightarrow>
   error + (GenotypeComboResult list \<times> GenotypeComboResult list)" where
  "truncationLoop depth genotypeComboProbs homozygousCombos =
     (if length genotypeComboProbs + length homozygousCombos > depth then
        (if genotypeComboProbs = [] then Inl BackOfEmptyVector
         else truncationLoop depth (butlast genotypeComboProbs)
                (if isHomozygous (combo (last genotypeComboProbs))
                 then homozygousCombos @ [last genotypeComboProbs]
                 else homozygousCombos))
      else Inr (genotypeComboProbs, homozygousCombos))"
  by pat_completeness auto
termination
  by (relation "measure (\<lambda>(depth, genotypeComboProbs, homozygousCombos). length genotypeComboProbs)")
    auto

text \<open>
  Lines 299-310: the truncation and the re-admission (the second loop pushes the set-aside
  results back in the order they were set aside). The re-sort of line 312 follows.
\<close>

definition truncateToDepth ::
  "int \<Rightarrow> GenotypeComboResult list \<Rightarrow> error + GenotypeComboResult list" where
  "truncateToDepth posteriorIntegrationDepth genotypeComboProbs =
     (if posteriorIntegrationDepth > 0 then
        (case truncationLoop (nat posteriorIntegrationDepth) genotypeComboProbs [] of
           Inl e \<Rightarrow> Inl e
         | Inr (kept, homozygousCombos) \<Rightarrow> Inr (kept @ homozygousCombos))
      else Inr genotypeComboProbs)"

text \<open>
  Modelled from the spec: \<^verbatim>\<open>logsumexp_probs\<close> (Utility, not under src/):
  \<open>max(scores) + log(\<Sum> exp(score - max))\<close>; no value at all is an error.
\<close>

definition logsumexp_probs :: "real list \<Rightarrow> error + real" where
  "logsumexp_probs lnv =
     (case lnv of
        [] \<Rightarrow> Inl LogSumExpOfNothing
      | v # vs \<Rightarrow>
          (let maxN = fold max vs v
           in Inr (maxN + ln (sum_list (map (\<lambda>x. exp (x - maxN)) lnv)))))"

text \<open>
  Modelled from the spec: \<^verbatim>\<open>safe_exp\<close> (Utility, not under src/) is the exponential.
\<close>

definition safe_exp :: "real \<Rightarrow> real" where
  "safe_exp x = exp x"

text \<open>Lines 316-321: the posterior normalizer of the kept results.\<close>

definition posteriorNormalizer :: "GenotypeComboResult list \<Rightarrow> error + real" where
  "posteriorNormalizer genotypeComboProbs = logsumexp_probs (map priorComboProb genotypeComboProbs)"

text \<open>
  Lines 347-366: the variables of the loop that computes the probability of variation and
  picks the combination to report. \<^verbatim>\<open>bestCombo\<close> starts as \<^verbatim>\<open>NULL\<close> and
  \<^verbatim>\<open>bestComboProb\<close> uninitialised.
\<close>

record Selection =
  pVar :: real
  hasHetCombo :: bool
  bestCombo :: "GenotypeCombo option"
  bestComboProb :: "real option"

text \<open>One turn of the loop of lines 353-361; \<open>front\<close> is \<^verbatim>\<open>genotypeComboProbs.front()\<close>.\<close>

definition selectionStep ::
  "real \<Rightarrow> GenotypeComboResult \<Rightarrow> GenotypeComboResult \<Rightarrow> Selection \<Rightarrow> Selection" where
  "selectionStep normalizer front gc s =
     (if isHomozygous (combo gc) then
        s\<lparr>pVar := pVar s - safe_exp (priorComboProb gc - normalizer)\<rparr>
      else if \<not> hasHetCombo s then
        s\<lparr>bestCombo := Some (combo gc),
          bestComboProb := Some (priorComboProb front),
          hasHetCombo := True\<rparr>
      else s)"

definition initialSelection :: Selection where
  "initialSelection = \<lparr>pVar = 1, hasHetCombo = False, bestCombo = None, bestComboProb = None\<rparr>"

definition selectionLoop :: "real \<Rightarrow> GenotypeComboResult list \<Rightarrow> Selection" where
  "selectionLoop normalizer genotypeComboProbs =
     (case genotypeComboProbs of
        [] \<Rightarrow> initialSelection
      | front # _ \<Rightarrow> fold (selectionStep normalizer front) genotypeComboProbs initialSelection)"

text \<open>Lines 347-366 as a whole; the fallback of line 363 reads \<^verbatim>\<open>front()\<close>.\<close>

definition selectBestCombo :: "real \<Rightarrow> GenotypeComboResult list \<Rightarrow> error + Selection" where
  "selectBestCombo normalizer genotypeComboProbs =
     (let s = selectionLoop normalizer genotypeComboProbs in
      if \<not> hasHetCombo s then
        (case genotypeComboProbs of
           [] \<Rightarrow> Inl FrontOfEmptyVector
         | front # _ \<Rightarrow>
             Inr (s\<lparr>bestCombo := Some (combo front),
                    bestComboProb := Some (priorComboProb front)\<rparr>))
      else Inr s)"

text \<open>Lines 316-366: normalizer, then probability of variation and best combination.\<close>

definition sitePosterior :: "GenotypeComboResult list \<Rightarrow> error + (real \<times> Selection)" where
  "sitePosterior genotypeComboProbs =
     (case posteriorNormalizer genotypeComboProbs of
        Inl e \<Rightarrow> Inl e
      | Inr normalizer \<Rightarrow>
          (case selectBestCombo normalizer genotypeComboProbs of
             Inl e \<Rightarrow> Inl e
           | Inr s \<Rightarrow> Inr (normalizer, s)))"

section \<open>Output of a processed position (lines 413-479)\<close>

text \<open>
  The members of \<^verbatim>\<open>parameters\<close> that the modelled lines read; \<open>outputFormat\<close> is
  \<^verbatim>\<open>parameters.output\<close>.
\<close>

record Parameters =
  debug :: bool
  trace :: bool
  suppressOutput :: bool
  outputFormat :: string
  PVL :: real
  reportAllAlternates :: bool
  failedFile :: string

text \<open>
  What the driver holds at line 413: \<open>sitePVar\<close> is \<^verbatim>\<open>pVar\<close>, \<open>reportNormalizer\<close> is
  \<^verbatim>\<open>posteriorNormalizer\<close>, \<open>combosTested\<close> is \<^verbatim>\<open>bandedCombos.size()\<close>, and
  \<open>bestGenotypeCombo\<close> and \<open>bestGenotypeComboProb\<close> are \<^verbatim>\<open>bestCombo\<close> and
  \<^verbatim>\<open>bestComboProb\<close> of lines 347-366 (lines 371-372). \<open>alternates\<close> is the value of
  \<^verbatim>\<open>alternateAlleles(bestGenotypeCombo, referenceBase)\<close> (not under src/): the alternate
  alleles of the best combination with their counts.
\<close>

record Report =
  currentPosition :: nat
  targetSeq :: string
  currentReferenceBase :: string
  coverage :: int
  combosTested :: nat
  reportNormalizer :: real
  sitePVar :: real
  bestGenotypeCombo :: GenotypeCombo
  bestGenotypeComboProb :: real
  bestGenotypeComboAlleleSamplingProb :: real
  alternates :: "(Allele \<times> int) list"
  genotypeAlleles :: "Allele list"

text \<open>
  A record written to the main output: the JSON object of lines 416-426 with the values
  streamed into it, or one \<^verbatim>\<open>vcf(...)\<close> line with the arguments of the call.
\<close>

datatype OutputRecord =
    JsonRecord nat string GenotypeCombo real real nat int real
  | VcfRecord real string string Allele int GenotypeCombo

fun isVcfRecord :: "OutputRecord \<Rightarrow> bool" where
  "isVcfRecord (JsonRecord _ _ _ _ _ _ _ _) = False"
| "isVcfRecord (VcfRecord _ _ _ _ _ _) = True"

text \<open>A line of the failed-positions file (lines 471-475): sequence, start, end, allele.\<close>

type_synonym FailedLine = "string \<times> nat \<times> nat \<times> Allele"

definition jsonRecord :: "Report \<Rightarrow> OutputRecord" where
  "jsonRecord r =
     JsonRecord (currentPosition r + 1) (targetSeq r) (bestGenotypeCombo r)
       (bestGenotypeComboProb r) (bestGenotypeComboAlleleSamplingProb r) (combosTested r)
       (coverage r) (safe_exp (reportNormalizer r))"

definition vcfRecord :: "Report \<Rightarrow> Allele \<Rightarrow> OutputRecord" where
  "vcfRecord r alt =
     VcfRecord (sitePVar r) (currentReferenceBase r) (base alt) alt (coverage r)
       (bestGenotypeCombo r)"

definition failedLines :: "Report \<Rightarrow> FailedLine list" where
  "failedLines r =
     map (\<lambda>ga. (targetSeq r, currentPosition r, currentPosition r + alleleLength ga, ga))
       (filter (\<lambda>ga. alleleType ga \<noteq> ALLELE_REFERENCE) (genotypeAlleles r))"

text \<open>
  Lines 413-479: the records appended to the main output and the lines appended to the
  failed-positions file. Line 449 reads \<^verbatim>\<open>alternates.front()\<close> without a test.
\<close>

definition emitOutput :: "Parameters \<Rightarrow> Report \<Rightarrow> error + (OutputRecord list \<times> FailedLine list)" where
  "emitOutput parameters r =
     (if \<not> suppressOutput parameters then
        (let json = (if outputFormat parameters = ''json'' then [jsonRecord r] else []) in
         if sitePVar r \<ge> PVL parameters then
           (if outputFormat parameters = ''vcf'' then
              (if reportAllAlternates parameters then
                 Inr (json @ map (\<lambda>a. vcfRecord r (fst a)) (alternates r), [])
               else
                 (case alternates r of
                    [] \<Rightarrow> Inl FrontOfEmptyVector
                  | bestAlt # _ \<Rightarrow> Inr (json @ [vcfRecord r (fst bestAlt)], [])))
            else Inr (json, []))
         else if failedFile parameters \<noteq> [] then Inr (json, failedLines r)
         else Inr (json, []))
      else Inr ([], []))"

section \<open>The guards of the main loop (lines 98-184)\<close>

text \<open>
  What the allele source gives for one position, as far as the guards read it:
  \<open>countAlleles\<close> is the value of \<^verbatim>\<open>countAlleles(samples)\<close>,
  \<open>sufficientAlternateObservations\<close> the value of the call of line 153 under the
  configured \<^verbatim>\<open>minAltCount\<close> and \<^verbatim>\<open>minAltFraction\<close>, \<open>viableGenotypeAlleles\<close> the
  vector \<^verbatim>\<open>parser->genotypeAlleles(...)\<close> returns at line 176, and \<open>alleleTraceRecords\<close>
  the lines the trace loop of lines 115-126 prints.
\<close>

record Site =
  currentReferenceBaseString :: string
  alleleTraceRecords :: "string list"
  inTarget :: bool
  countAlleles :: int
  sufficientAlternateObservations :: bool
  viableGenotypeAlleles :: "Allele list"

text \<open>
  The messages of the \<^verbatim>\<open>DEBUG\<close> macro before line 184, written to \<^verbatim>\<open>cerr\<close> when
  \<^verbatim>\<open>parameters.debug\<close> is set (\<^verbatim>\<open>DEBUG2\<close> expands to nothing unless
  \<^verbatim>\<open>VERBOSE_DEBUG\<close> is defined, and is left out).
\<close>

datatype Diagnostic =
  NotInsideAnyTargets | CoverageIs int | NoAllelesLeft | InsufficientAlternateObservations

record MainState =
  total_sites :: nat
  processed_sites :: nat
  out :: "OutputRecord list"
  failedOut :: "FailedLine list"
  traceFile :: "string list"
  cerr :: "Diagnostic list"

definition DEBUG :: "Parameters \<Rightarrow> Diagnostic \<Rightarrow> MainState \<Rightarrow> MainState" where
  "DEBUG parameters msg st = (if debug parameters then st\<lparr>cerr := cerr st @ [msg]\<rparr> else st)"

text \<open>
  One turn of the \<^verbatim>\<open>while\<close> loop of line 98. \<open>laterStages\<close> stands for lines 186-480,
  entered after \<^verbatim>\<open>++processed_sites\<close>: genotype enumeration, data likelihoods, banded
  search, prior scoring, posterior aggregation and the output of the position. Every
  \<^verbatim>\<open>continue\<close> above it leaves the turn without calling it.
\<close>

definition mainLoopBody ::
  "Parameters \<Rightarrow> (Site \<Rightarrow> MainState \<Rightarrow> MainState) \<Rightarrow> Site \<Rightarrow> MainState \<Rightarrow> MainState" where
  "mainLoopBody parameters laterStages site st =
     (let st1 = st\<lparr>total_sites := total_sites st + 1\<rparr>;
          cb = currentReferenceBaseString site
      in
      if cb \<noteq> ''A'' \<and> cb \<noteq> ''T'' \<and> cb \<noteq> ''C'' \<and> cb \<noteq> ''G'' then st1
      else
        (let st2 = (if trace parameters
                    then st1\<lparr>traceFile := traceFile st1 @ alleleTraceRecords site\<rparr>
                    else st1)
         in
         if \<not> inTarget site then DEBUG parameters NotInsideAnyTargets st2
         else
           (let st3 = DEBUG parameters (CoverageIs (countAlleles site)) st2 in
            if countAlleles site = 0 then DEBUG parameters NoAllelesLeft st3
            else if \<not> sufficientAlternateObservations site
              then DEBUG parameters InsufficientAlternateObservations st3
            else if length (viableGenotypeAlleles site) \<le> 1 then st3
            else laterStages site (st3\<lparr>processed_sites := processed_sites st3 + 1\<rparr>))))"

text \<open>The skip conditions of the specification, read off one position.\<close>

definition skipCondition :: "Site \<Rightarrow> bool" where
  "skipCondition site =
     (currentReferenceBaseString site \<notin> {''A'', ''C'', ''G'', ''T''}
      \<or> \<not> inTarget site
      \<or> countAlleles site = 0
      \<or> \<not> sufficientAlternateObservations site
      \<or> length (viableGenotypeAlleles site) \<le> 1)"

section \<open>Example inputs\<close>

text \<open>
  One diploid sample and the candidate alleles A and T: the combinations AA, AT and TT, and a
  scored combination with a given total score.
\<close>

definition alleleA :: Allele where
  "alleleA = genotypeAllele ALLELE_GENOTYPE ''A'' 1"

definition alleleT :: Allele where
  "alleleT = genotypeAllele ALLELE_GENOTYPE ''T'' 1"

definition comboAA :: GenotypeCombo where
  "comboAA = [(''sample1'', [alleleA, alleleA])]"

definition comboAT :: GenotypeCombo where
  "comboAT = [(''sample1'', [alleleA, alleleT])]"

definition comboTT :: GenotypeCombo where
  "comboTT = [(''sample1'', [alleleT, alleleT])]"

definition scored :: "GenotypeCombo \<Rightarrow> real \<Rightarrow> GenotypeComboResult" where
  "scored c p =
     \<lparr>combo = c, priorComboProb = p, probObsGivenGenotypes = p, priorProbGenotypeCombo = 0,
      priorProbGenotypeComboG_Af = 0, priorProbGenotypeComboAf = 0\<rparr>"

section \<open>The selection rule of the specification\<close>

text \<open>
  The specification's rule for the combination to report: the first heterozygous-classified
  result in sorted order if there is one, otherwise the front of the sorted list.
\<close>

definition firstHeterozygous :: "GenotypeComboResult list \<Rightarrow> GenotypeComboResult option" where
  "firstHeterozygous gcs = find (\<lambda>gc. \<not> isHomozygous (combo gc)) gcs"

definition specBestCombo :: "GenotypeComboResult list \<Rightarrow> GenotypeComboResult option" where
  "specBestCombo gcs =
     (case firstHeterozygous gcs of
        Some gc \<Rightarrow> Some gc
      | None \<Rightarrow> (case gcs of [] \<Rightarrow> None | front # _ \<Rightarrow> Some front))"

text \<open>The posterior mass of the homozygous results under a normalizer.\<close>

definition homozygousMass :: "real \<Rightarrow> GenotypeComboResult list \<Rightarrow> real" where
  "homozygousMass n gcs =
     sum_list (map (\<lambda>gc. exp (priorComboProb gc - n))
       (filter (\<lambda>gc. isHomozygous (combo gc)) gcs))"

text \<open>
  A position whose reference base is N, a later-stage function that writes a JSON record
  (to observe whether it ran), and the state at the start of the run.
\<close>

definition siteN :: Site where
  "siteN =
     \<lparr>currentReferenceBaseString = ''N'', alleleTraceRecords = [], inTarget = True,
      countAlleles = 3, sufficientAlternateObservations = True,
      viableGenotypeAlleles = [alleleA, alleleT]\<rparr>"

definition writingStages :: "Site \<Rightarrow> MainState \<Rightarrow> MainState" where
  "writingStages site st = st\<lparr>out := out st @ [JsonRecord 1 ''chr1'' comboAT 0 0 3 3 1]\<rparr>"

definition initialState :: MainState where
  "initialState =
     \<lparr>total_sites = 0, processed_sites = 0, out = [], failedOut = [], traceFile = [],
      cerr = []\<rparr>"

text \<open>
  JSON output with a failed-positions file, and a processed position whose probability of
  variation is below the threshold.
\<close>

definition jsonParameters :: Parameters where
  "jsonParameters =
     \<lparr>debug = False, trace = False, suppressOutput = False, outputFormat = ''json'',
      PVL = 9 / 10, reportAllAlternates = False, failedFile = ''failed.bed''\<rparr>"

definition lowReport :: Report where
  "lowReport =
     \<lparr>currentPosition = 41, targetSeq = ''chr1'', currentReferenceBase = ''A'', coverage = 3,
      combosTested = 3, reportNormalizer = 0, sitePVar = 1 / 2, bestGenotypeCombo = comboAT,
      bestGenotypeComboProb = 0, bestGenotypeComboAlleleSamplingProb = 1,
      alternates = [(alleleT, 1)],
      genotypeAlleles = [genotypeAllele ALLELE_REFERENCE ''A'' 1, alleleT]\<rparr>"

section \<open>Facts about the example inputs\<close>

lemma alleleA_neq_alleleT: "alleleA \<noteq> alleleT"
  by (simp add: alleleA_def alleleT_def genotypeAllele_def)

lemma isHomozygous_examples:
  "isHomozygous comboAA" "\<not> isHomozygous comboAT" "isHomozygous comboTT"
  using alleleA_neq_alleleT
  by (auto simp: isHomozygous_def homozygous_def comboAA_def comboAT_def comboTT_def)

lemma combo_examples_distinct:
  "comboAA \<noteq> comboAT" "comboAA \<noteq> comboTT" "comboAT \<noteq> comboTT"
  using alleleA_neq_alleleT by (auto simp: comboAA_def comboAT_def comboTT_def)

lemma scored_sel: "combo (scored c p) = c" "priorComboProb (scored c p) = p"
  by (simp_all add: scored_def)

lemma scored_eq_iff: "scored c p = scored c' p' \<longleftrightarrow> c = c' \<and> p = p'"
  by (auto simp: scored_def)

section \<open>Properties of the genotype enumeration\<close>

lemma multichoose_length_elem: "g \<in> set (multichoose k xs) \<Longrightarrow> length g = k"
  by (induction k xs arbitrary: g rule: multichoose.induct) auto

lemma multichoose_subset: "g \<in> set (multichoose k xs) \<Longrightarrow> set g \<subseteq> set xs"
proof (induction k xs arbitrary: g rule: multichoose.induct)
  case (1 xs)
  then show ?case by simp
next
  case (2 k)
  then show ?case by simp
next
  case (3 k x xs)
  from 3(3) consider h where "g = x # h" "h \<in> set (multichoose k (x # xs))"
    | "g \<in> set (multichoose (Suc k) xs)"
    by auto
  then show ?case
  proof cases
    case 1
    then show ?thesis using 3(1)[of h] by auto
  next
    case 2
    then show ?thesis using 3(2)[of g] by auto
  qed
qed

lemma multichoose_count: "length (multichoose k xs) = (length xs + k - 1) choose k"
proof (induction k xs rule: multichoose.induct)
  case (1 xs)
  show ?case by simp
next
  case (2 k)
  show ?case by simp
next
  case (3 k x xs)
  have "length (multichoose (Suc k) (x # xs)) =
          ((length xs + k) choose k) + ((length xs + k) choose Suc k)"
    using 3 by simp
  then show ?case by simp
qed

lemma multichoose_distinct:
  "distinct xs \<Longrightarrow> distinct (map mset (multichoose k xs))"
proof (induction k xs rule: multichoose.induct)
  case (1 xs)
  show ?case by simp
next
  case (2 k)
  show ?case by simp
next
  case (3 k x xs)
  have left: "distinct (map mset (map ((#) x) (multichoose k (x # xs))))"
    using 3 by (simp add: distinct_map comp_def inj_on_def)
  have right: "distinct (map mset (multichoose (Suc k) xs))"
    using 3 by simp
  have apart: "mset (x # g) \<noteq> mset h"
    if "g \<in> set (multichoose k (x # xs))" "h \<in> set (multichoose (Suc k) xs)" for g h
  proof
    assume "mset (x # g) = mset h"
    then have "x \<in> set h" by (metis list.set_intros(1) set_mset_mset)
    moreover have "set h \<subseteq> set xs" using that(2) by (rule multichoose_subset)
    ultimately show False using 3(3) by auto
  qed
  show ?case
    using left right apart by (auto simp: comp_def)
qed

lemma multichoose_complete:
  "size M = k \<Longrightarrow> set_mset M \<subseteq> set xs \<Longrightarrow> M \<in> mset ` set (multichoose k xs)"
proof (induction k xs arbitrary: M rule: multichoose.induct)
  case (1 xs)
  then show ?case by simp
next
  case (2 k)
  then show ?case by auto
next
  case (3 k x xs)
  show ?case
  proof (cases "x \<in># M")
    case True
    then obtain M' where M: "M = add_mset x M'" by (meson mset_add)
    have "size M' = k" using 3(3) M by simp
    moreover have "set_mset M' \<subseteq> set (x # xs)" using 3(4) M by auto
    ultimately obtain g where "g \<in> set (multichoose k (x # xs))" "mset g = M'"
      using 3(1) by blast
    then have "x # g \<in> set (multichoose (Suc k) (x # xs))" "mset (x # g) = M"
      using M by auto
    then show ?thesis by (metis imageI)
  next
    case False
    then have "set_mset M \<subseteq> set xs" using 3(4) by auto
    then obtain g where "g \<in> set (multichoose (Suc k) xs)" "mset g = M"
      using 3(2)[OF 3(3)] by blast
    then show ?thesis by auto
  qed
qed

lemma multichoose_msets:
  "mset ` set (multichoose k xs) = {M. size M = k \<and> set_mset M \<subseteq> set xs}"
proof (intro set_eqI iffI)
  fix M assume "M \<in> mset ` set (multichoose k xs)"
  then obtain g where g: "g \<in> set (multichoose k xs)" "M = mset g" by blast
  then show "M \<in> {M. size M = k \<and> set_mset M \<subseteq> set xs}"
    using multichoose_length_elem[OF g(1)] multichoose_subset[OF g(1)] by simp
next
  fix M assume "M \<in> {M. size M = k \<and> set_mset M \<subseteq> set xs}"
  then show "M \<in> mset ` set (multichoose k xs)"
    using multichoose_complete by blast
qed

text \<open>
  Claim C9. For a ploidy \<open>p\<close> and \<open>n\<close> distinct candidate alleles, the genotype enumerator
  returns exactly \<open>C(n + p - 1, p)\<close> genotypes, no two of which are the same selection
  (multiset) of alleles, each of size exactly \<open>p\<close>, and together they are all the selections
  of \<open>p\<close> alleles with repetition from the candidates. This holds for every \<open>p\<close> and
  \<open>n\<close>, in particular for \<open>p \<ge> 1\<close> and \<open>n \<ge> p\<close>.
\<close>

theorem allPossibleGenotypes_enumerates:
  assumes "distinct alleles"
  shows "length (allPossibleGenotypes p alleles)
           = (length alleles + p - 1) choose p
       \<and> distinct (map mset (allPossibleGenotypes p alleles))
       \<and> (\<forall>g \<in> set (allPossibleGenotypes p alleles). length g = p)
       \<and> mset ` set (allPossibleGenotypes p alleles)
           = {M. size M = p \<and> set_mset M \<subseteq> set alleles}"
  unfolding allPossibleGenotypes_def
  using assms multichoose_count multichoose_distinct multichoose_length_elem multichoose_msets
  by blast

theorem allPossibleGenotypes_enumerates_witness:
  "distinct [alleleA, alleleT]
   \<and> length (allPossibleGenotypes 2 [alleleA, alleleT]) = 3
   \<and> allPossibleGenotypes 2 [alleleA, alleleT]
       = [[alleleA, alleleA], [alleleA, alleleT], [alleleT, alleleT]]"
proof -
  have d: "distinct [alleleA, alleleT]"
    by (simp add: alleleA_def alleleT_def genotypeAllele_def)
  have "(length [alleleA, alleleT] + 2 - 1) choose 2 = (3::nat)"
    by (simp add: numeral_2_eq_2 numeral_3_eq_3)
  then show ?thesis
    using d allPossibleGenotypes_enumerates[OF d, of 2]
    by (simp add: allPossibleGenotypes_def numeral_2_eq_2)
qed

section \<open>The sort of the scored combinations\<close>

lemma sorted_wrt_gcrSorter:
  "sorted_wrt (\<lambda>a b. \<not> gcrSorter b a) ys \<longleftrightarrow> sorted (map (\<lambda>gc. - priorComboProb gc) ys)"
  by (simp add: sorted_map gcrSorter_def not_less)

lemma std_sort_set: "std_sort cmp xs ys \<Longrightarrow> set ys = set xs"
  by (auto simp: std_sort_def dest: mset_eq_setD)

lemma std_sort_length: "std_sort cmp xs ys \<Longrightarrow> length ys = length xs"
  by (auto simp: std_sort_def dest: mset_eq_length)

section \<open>Truncation to the posterior integration depth\<close>

declare truncationLoop.simps [simp del]

lemma truncationLoop_stop:
  "\<not> length gcp + length homs > depth \<Longrightarrow> truncationLoop depth gcp homs = Inr (gcp, homs)"
  by (subst truncationLoop.simps) simp

lemma truncationLoop_empty:
  "length homs > depth \<Longrightarrow> truncationLoop depth [] homs = Inl BackOfEmptyVector"
  by (subst truncationLoop.simps) simp

lemma truncationLoop_snoc:
  "length gcp + length homs \<ge> depth \<Longrightarrow>
   truncationLoop depth (gcp @ [gc]) homs =
     truncationLoop depth gcp (if isHomozygous (combo gc) then homs @ [gc] else homs)"
  by (subst truncationLoop.simps) simp

text \<open>
  The loop runs off the empty vector exactly when the homozygous results, kept and set
  aside, outnumber the depth.
\<close>

lemma truncationLoop_fails_iff:
  "(\<exists>e. truncationLoop depth gcp homs = Inl e)
     \<longleftrightarrow> depth < length (filter (\<lambda>gc. isHomozygous (combo gc)) gcp) + length homs"
proof (induction gcp arbitrary: homs rule: rev_induct)
  case Nil
  show ?case
  proof (cases "length homs > depth")
    case True
    then show ?thesis by (simp add: truncationLoop_empty)
  next
    case False
    then show ?thesis by (simp add: truncationLoop_stop)
  qed
next
  case (snoc gc gcp)
  show ?case
  proof (cases "length gcp + length homs \<ge> depth")
    case True
    then show ?thesis by (simp add: truncationLoop_snoc snoc.IH)
  next
    case False
    have le: "length (filter (\<lambda>gc. isHomozygous (combo gc)) gcp) \<le> length gcp"
      by (rule length_filter_le)
    have "truncationLoop depth (gcp @ [gc]) homs = Inr (gcp @ [gc], homs)"
      using False by (simp add: truncationLoop_stop)
    moreover have
      "\<not> depth < length (filter (\<lambda>gc. isHomozygous (combo gc)) (gcp @ [gc])) + length homs"
      using False le by (simp del: length_filter_le)
    ultimately show ?thesis by simp
  qed
qed

text \<open>The loop ends only when no more than the depth remain.\<close>

lemma truncationLoop_bound:
  "truncationLoop depth gcp homs = Inr (kept, aside) \<Longrightarrow> length kept + length aside \<le> depth"
proof (induction depth gcp homs rule: truncationLoop.induct)
  case (1 depth gcp homs)
  show ?case
  proof (cases "length gcp + length homs > depth")
    case False
    then show ?thesis using "1.prems" by (simp add: truncationLoop_stop)
  next
    case over: True
    show ?thesis
    proof (cases "gcp = []")
      case True
      then show ?thesis using over "1.prems" by (simp add: truncationLoop_empty)
    next
      case False
      have "truncationLoop depth (butlast gcp)
              (if isHomozygous (combo (last gcp)) then homs @ [last gcp] else homs)
            = Inr (kept, aside)"
        using "1.prems" over False by (subst (asm) truncationLoop.simps) simp
      from "1.IH"[OF over False this] show ?thesis .
    qed
  qed
qed

text \<open>
  When the loop ends, the kept results are a prefix of the sorted list and the results set
  aside are the homozygous ones among the removed, last removed last.
\<close>

lemma truncationLoop_result:
  assumes "truncationLoop depth gcp homs = Inr (kept, aside)"
  shows "\<exists>dropped. gcp = kept @ dropped
           \<and> aside = homs @ rev (filter (\<lambda>gc. isHomozygous (combo gc)) dropped)"
  using assms
proof (induction gcp arbitrary: homs rule: rev_induct)
  case Nil
  then show ?case
    by (cases "length homs > depth") (simp_all add: truncationLoop_stop truncationLoop_empty)
next
  case (snoc gc gcp)
  show ?case
  proof (cases "length (gcp @ [gc]) + length homs > depth")
    case False
    then show ?thesis using snoc.prems by (simp add: truncationLoop_stop)
  next
    case True
    then have ge: "length gcp + length homs \<ge> depth" by simp
    let ?homs = "if isHomozygous (combo gc) then homs @ [gc] else homs"
    have "truncationLoop depth gcp ?homs = Inr (kept, aside)"
      using snoc.prems truncationLoop_snoc[OF ge] by simp
    from snoc.IH[OF this] obtain dropped where d:
      "gcp = kept @ dropped"
      "aside = ?homs @ rev (filter (\<lambda>gc. isHomozygous (combo gc)) dropped)"
      by blast
    show ?thesis
      by (rule exI[of _ "dropped @ [gc]"]) (use d in auto)
  qed
qed

lemma truncateToDepth_fails_iff:
  "(\<exists>e. truncateToDepth K gcp = Inl e)
     \<longleftrightarrow> 0 < K \<and> nat K < length (filter (\<lambda>gc. isHomozygous (combo gc)) gcp)"
proof (cases "0 < K")
  case False
  then show ?thesis by (simp add: truncateToDepth_def)
next
  case True
  have "(\<exists>e. truncateToDepth K gcp = Inl e) \<longleftrightarrow> (\<exists>e. truncationLoop (nat K) gcp [] = Inl e)"
    using True by (auto simp: truncateToDepth_def split: sum.splits)
  then show ?thesis using True truncationLoop_fails_iff[of "nat K" gcp "[]"] by simp
qed

text \<open>
  When the truncation ends normally, the re-admitted list and every re-sort of it hold the
  homozygous results of the input, each as often as the input does, and nothing that the
  input does not hold.
\<close>

lemma truncateToDepth_keeps_homozygous:
  assumes "truncateToDepth K gcp = Inr readmitted" and "std_sort gcrSorter readmitted kept"
  shows "mset (filter (\<lambda>gc. isHomozygous (combo gc)) kept)
           = mset (filter (\<lambda>gc. isHomozygous (combo gc)) gcp)"
    and "mset kept \<subseteq># mset gcp"
proof -
  have "mset (filter (\<lambda>gc. isHomozygous (combo gc)) readmitted)
          = mset (filter (\<lambda>gc. isHomozygous (combo gc)) gcp)
        \<and> mset readmitted \<subseteq># mset gcp"
  proof (cases "0 < K")
    case False
    then show ?thesis using assms(1) by (simp add: truncateToDepth_def)
  next
    case True
    then obtain k aside where l: "truncationLoop (nat K) gcp [] = Inr (k, aside)"
      and r: "readmitted = k @ aside"
      using assms(1) by (auto simp: truncateToDepth_def split: sum.splits)
    from truncationLoop_result[OF l] obtain dropped where d: "gcp = k @ dropped"
      "aside = rev (filter (\<lambda>gc. isHomozygous (combo gc)) dropped)"
      by auto
    have "mset (filter (\<lambda>gc. isHomozygous (combo gc)) dropped) \<subseteq># mset dropped"
      by (simp add: mset_filter)
    then show ?thesis using r d by (simp add: mset_filter)
  qed
  moreover have "mset kept = mset readmitted" using assms(2) by (simp add: std_sort_def)
  ultimately show "mset (filter (\<lambda>gc. isHomozygous (combo gc)) kept)
           = mset (filter (\<lambda>gc. isHomozygous (combo gc)) gcp)"
    and "mset kept \<subseteq># mset gcp"
    by simp_all
qed

text \<open>
  Claim C1 at a depth below the number of homozygous results: depth 1 and the sorted list
  AA, TT (both homozygous). The loop sets TT aside, then AA, and with the vector empty and
  two results set aside still exceeds the depth, so line 302 reads \<^verbatim>\<open>back()\<close> of the empty
  vector: the behaviour is undefined, and no list holding both homozygous results comes out.
\<close>

theorem truncation_below_homozygous_count_fails:
  "truncateToDepth 1 [scored comboAA (-1), scored comboTT (-2)] = Inl BackOfEmptyVector"
  by (simp add: truncateToDepth_def truncationLoop.simps isHomozygous_examples scored_sel)

section \<open>The loop of lines 353-361\<close>

lemma fold_selectionStep_pVar:
  "pVar (fold (selectionStep n front) gcs s) = pVar s - homozygousMass n gcs"
  by (induction gcs arbitrary: s)
    (simp_all add: selectionStep_def homozygousMass_def safe_exp_def)

lemma fold_selectionStep_hasHetCombo:
  "hasHetCombo (fold (selectionStep n front) gcs s)
     \<longleftrightarrow> hasHetCombo s \<or> firstHeterozygous gcs \<noteq> None"
  by (induction gcs arbitrary: s)
    (simp_all add: selectionStep_def firstHeterozygous_def split: option.splits)

lemma fold_selectionStep_bestCombo:
  "bestCombo (fold (selectionStep n front) gcs s) =
     (if hasHetCombo s then bestCombo s
      else case firstHeterozygous gcs of None \<Rightarrow> bestCombo s | Some gc \<Rightarrow> Some (combo gc))"
  by (induction gcs arbitrary: s)
    (simp_all add: selectionStep_def firstHeterozygous_def split: option.splits)

lemma fold_selectionStep_bestComboProb:
  "bestComboProb (fold (selectionStep n front) gcs s) =
     (if hasHetCombo s then bestComboProb s
      else case firstHeterozygous gcs of
             None \<Rightarrow> bestComboProb s
           | Some gc \<Rightarrow> Some (priorComboProb front))"
  by (induction gcs arbitrary: s)
    (simp_all add: selectionStep_def firstHeterozygous_def split: option.splits)

text \<open>
  Lines 347-366 on a list that is not empty: the selection ends without error, and each of
  its variables is determined as follows.
\<close>

lemma selectBestCombo_Cons:
  "\<exists>s. selectBestCombo n (front # rest) = Inr s
     \<and> pVar s = 1 - homozygousMass n (front # rest)
     \<and> hasHetCombo s = (firstHeterozygous (front # rest) \<noteq> None)
     \<and> bestCombo s = map_option combo (specBestCombo (front # rest))
     \<and> bestComboProb s = Some (priorComboProb front)"
proof (cases "firstHeterozygous (front # rest)")
  case None
  then show ?thesis
    by (simp add: selectBestCombo_def selectionLoop_def Let_def specBestCombo_def
        initialSelection_def fold_selectionStep_pVar fold_selectionStep_hasHetCombo
        del: fold.simps)
next
  case (Some gc)
  then show ?thesis
    by (simp add: selectBestCombo_def selectionLoop_def Let_def specBestCombo_def
        initialSelection_def fold_selectionStep_pVar fold_selectionStep_hasHetCombo
        fold_selectionStep_bestCombo fold_selectionStep_bestComboProb
        del: fold.simps)
qed

lemma selectBestCombo_Nil: "selectBestCombo n [] = Inl FrontOfEmptyVector"
  by (simp add: selectBestCombo_def selectionLoop_def initialSelection_def)

section \<open>The log-sum-exp and the posterior normalizer\<close>

lemma member_le_sum_list_nonneg:
  fixes ys :: "real list"
  assumes "\<And>y. y \<in> set ys \<Longrightarrow> 0 \<le> y" and "x \<in> set ys"
  shows "x \<le> sum_list ys"
  using assms
proof (induction ys)
  case Nil
  then show ?case by simp
next
  case (Cons y ys)
  have rest: "0 \<le> sum_list ys" using Cons.prems(1) by (simp add: sum_list_nonneg)
  show ?case
  proof (cases "x = y")
    case True
    then show ?thesis using rest by simp
  next
    case False
    then have "x \<le> sum_list ys" using Cons by simp
    moreover have "0 \<le> y" using Cons.prems(1) by simp
    ultimately show ?thesis by simp
  qed
qed

lemma sum_list_filter_le_nonneg:
  fixes f :: "'a \<Rightarrow> real"
  assumes "\<And>x. 0 \<le> f x"
  shows "sum_list (map f (filter P xs)) \<le> sum_list (map f xs)"
proof (induction xs)
  case Nil
  show ?case by simp
next
  case (Cons x xs)
  then show ?case using assms[of x] by simp
qed

lemma logsumexp_probs_value:
  assumes "lnv \<noteq> []"
  shows "logsumexp_probs lnv
           = Inr (Max (set lnv) + ln (sum_list (map (\<lambda>x. exp (x - Max (set lnv))) lnv)))"
proof -
  obtain v vs where lnv: "lnv = v # vs" using assms by (cases lnv) auto
  have "fold max vs v = Max (set lnv)" unfolding lnv by (rule Max.set_eq_fold[symmetric])
  then show ?thesis by (simp add: logsumexp_probs_def lnv Let_def)
qed

lemma sum_exp_ge_1:
  fixes lnv :: "real list"
  assumes "lnv \<noteq> []"
  shows "1 \<le> sum_list (map (\<lambda>x. exp (x - Max (set lnv))) lnv)"
proof -
  have "Max (set lnv) \<in> set lnv" using assms by (intro Max_in) simp_all
  then have "exp (Max (set lnv) - Max (set lnv))
               \<in> (\<lambda>x. exp (x - Max (set lnv))) ` set lnv"
    by (rule imageI)
  then have "exp (Max (set lnv) - Max (set lnv))
               \<in> set (map (\<lambda>x. exp (x - Max (set lnv))) lnv)"
    by (simp only: set_map)
  moreover have "0 \<le> y" if "y \<in> set (map (\<lambda>x. exp (x - Max (set lnv))) lnv)" for y
    using that by auto
  ultimately have "exp (Max (set lnv) - Max (set lnv))
               \<le> sum_list (map (\<lambda>x. exp (x - Max (set lnv))) lnv)"
    using member_le_sum_list_nonneg by blast
  then show ?thesis by simp
qed

text \<open>Under the log-sum-exp as normalizer the posterior masses of all results sum to one.\<close>

lemma total_mass_one:
  assumes "lnv \<noteq> []" and "logsumexp_probs lnv = Inr n"
  shows "sum_list (map (\<lambda>x. exp (x - n)) lnv) = 1"
proof -
  let ?M = "Max (set lnv)"
  let ?S = "sum_list (map (\<lambda>x. exp (x - ?M)) lnv)"
  have S: "0 < ?S" using sum_exp_ge_1[OF assms(1)] by linarith
  have n: "n = ?M + ln ?S" using assms logsumexp_probs_value by simp
  have "exp (x - n) = exp (x - ?M) * (1 / ?S)" for x
    using S by (simp add: n diff_diff_eq[symmetric] exp_diff)
  then have "sum_list (map (\<lambda>x. exp (x - n)) lnv)
               = sum_list (map (\<lambda>x. exp (x - ?M) * (1 / ?S)) lnv)"
    by simp
  also have "\<dots> = ?S * (1 / ?S)" by (rule sum_list_mult_const)
  also have "\<dots> = 1" using S by simp
  finally show ?thesis .
qed

lemma homozygousMass_nonneg: "0 \<le> homozygousMass n gcs"
  by (auto simp: homozygousMass_def intro!: sum_list_nonneg)

lemma homozygousMass_le_1:
  assumes "gcs \<noteq> []" and "posteriorNormalizer gcs = Inr n"
  shows "homozygousMass n gcs \<le> 1"
proof -
  have "homozygousMass n gcs \<le> sum_list (map (\<lambda>gc. exp (priorComboProb gc - n)) gcs)"
    unfolding homozygousMass_def by (rule sum_list_filter_le_nonneg) simp
  also have "\<dots> = sum_list (map (\<lambda>x. exp (x - n)) (map priorComboProb gcs))"
    by (simp add: comp_def)
  also have "\<dots> = 1"
    using assms by (intro total_mass_one) (simp_all add: posteriorNormalizer_def)
  finally show ?thesis .
qed

text \<open>
  Claim C5. The posterior normalizer is the log-sum-exp of the kept results' total scores.
  For every score list that is not empty the log-sum-exp is
  \<open>max(scores) + log(\<Sum> exp(score - max))\<close>, it is at least \<open>max(scores)\<close>, and when
  all scores are equal it is \<open>max(scores) + log(count)\<close>.
\<close>

theorem logsumexp_probs_bounds:
  assumes "lnv \<noteq> []"
  shows "posteriorNormalizer gcs = logsumexp_probs (map priorComboProb gcs)
       \<and> (\<exists>r. logsumexp_probs lnv = Inr r
              \<and> r = Max (set lnv) + ln (sum_list (map (\<lambda>x. exp (x - Max (set lnv))) lnv))
              \<and> Max (set lnv) \<le> r
              \<and> ((\<forall>x \<in> set lnv. x = c) \<longrightarrow>
                    Max (set lnv) = c \<and> r = Max (set lnv) + ln (real (length lnv))))"
proof -
  let ?M = "Max (set lnv)"
  let ?S = "sum_list (map (\<lambda>x. exp (x - ?M)) lnv)"
  have ge: "?M \<le> ?M + ln ?S" using sum_exp_ge_1[OF assms] by simp
  have eq: "?M = c \<and> ?M + ln ?S = ?M + ln (real (length lnv))" if all: "\<forall>x \<in> set lnv. x = c"
  proof -
    have "?M \<in> set lnv" using assms by (intro Max_in) simp_all
    then have M: "?M = c" using all by simp
    have ones: "sum_list (map (\<lambda>x. 1 :: real) xs) = real (length xs)" for xs :: "real list"
      by (induction xs) simp_all
    have "map (\<lambda>x. exp (x - ?M)) lnv = map (\<lambda>x. 1 :: real) lnv"
      using all M by (intro map_cong refl) simp
    then have "?S = sum_list (map (\<lambda>x. 1 :: real) lnv)" by (simp only:)
    then have "?S = real (length lnv)" by (simp only: ones)
    then show ?thesis using M by (simp only:)
  qed
  have "logsumexp_probs lnv = Inr (?M + ln ?S)
        \<and> ?M + ln ?S = ?M + ln ?S
        \<and> ?M \<le> ?M + ln ?S
        \<and> ((\<forall>x \<in> set lnv. x = c) \<longrightarrow>
              ?M = c \<and> ?M + ln ?S = ?M + ln (real (length lnv)))"
    using logsumexp_probs_value[OF assms] ge eq by blast
  then have ex: "\<exists>r. logsumexp_probs lnv = Inr r
        \<and> r = ?M + ln ?S
        \<and> ?M \<le> r
        \<and> ((\<forall>x \<in> set lnv. x = c) \<longrightarrow> ?M = c \<and> r = ?M + ln (real (length lnv)))"
    by (intro exI[of _ "?M + ln ?S"])
  have "posteriorNormalizer gcs = logsumexp_probs (map priorComboProb gcs)"
    by (simp add: posteriorNormalizer_def)
  from this ex show ?thesis by (rule conjI)
qed

theorem logsumexp_probs_bounds_witness:
  "[0, 0] \<noteq> ([] :: real list)
   \<and> list_all (\<lambda>x. x = 0) [0, 0 :: real]
   \<and> logsumexp_probs [0, 0] = Inr (ln 2)
   \<and> Max (set [0, 0 :: real]) \<le> ln 2"
proof -
  have ne: "[0, 0] \<noteq> ([] :: real list)" by simp
  show ?thesis
    using logsumexp_probs_bounds[OF ne, of "[]" 0] by simp
qed

section \<open>Probability of variation and the combination to report\<close>



text \<open>
  The hypothesis of the second part always holds for the log-sum-exp normalizer: the masses
  of all kept results sum to one.
\<close>

lemma pVar_in_unit_interval:
  assumes "sitePosterior gcs = Inr (n, s)"
  shows "0 \<le> pVar s \<and> pVar s \<le> 1"
proof -
  have ne: "gcs \<noteq> []"
    using assms by (auto simp: sitePosterior_def posteriorNormalizer_def logsumexp_probs_def)
  then obtain front rest where gcs: "gcs = front # rest" by (cases gcs) auto
  have n: "posteriorNormalizer gcs = Inr n" and s: "selectBestCombo n gcs = Inr s"
    using assms by (auto simp: sitePosterior_def split: sum.splits)
  have "pVar s = 1 - homozygousMass n gcs"
    using selectBestCombo_Cons[of n front rest] s unfolding gcs by auto
  then show ?thesis
    using homozygousMass_nonneg[of n gcs] homozygousMass_le_1[OF ne n] by simp
qed


lemma sorted_front_is_top:
  assumes "sorted_wrt (\<lambda>a b. \<not> gcrSorter b a) (front # rest)" and "gc \<in> set (front # rest)"
  shows "priorComboProb gc \<le> priorComboProb front"
  using assms by (auto simp: gcrSorter_def not_less)

lemma sorted_firstHeterozygous_is_top:
  assumes "sorted_wrt (\<lambda>a b. \<not> gcrSorter b a) gcs" and "firstHeterozygous gcs = Some h"
    and "gc \<in> set gcs" and "\<not> isHomozygous (combo gc)"
  shows "priorComboProb gc \<le> priorComboProb h"
  using assms
proof (induction gcs)
  case Nil
  then show ?case by simp
next
  case (Cons x xs)
  show ?case
  proof (cases "isHomozygous (combo x)")
    case True
    then show ?thesis using Cons by (auto simp: firstHeterozygous_def)
  next
    case False
    then have "h = x" using Cons.prems(2) by (simp add: firstHeterozygous_def)
    then show ?thesis using Cons.prems(1,3) by (auto simp: gcrSorter_def not_less)
  qed
qed

text \<open>
  Claim C3. For every sorted list of scored combinations that is not empty, lines 349-366
  select, without error, the combination of the first heterozygous-classified result in the
  order of the list when some kept result is not homozygous, and the combination of the
  front of the list otherwise. In a list sorted descending by total score the first
  heterozygous result has the highest score among the heterozygous ones, and the front the
  highest score overall.
\<close>

theorem best_combo_is_first_heterozygous_or_front:
  assumes "gcs \<noteq> []" and "sorted_wrt (\<lambda>a b. \<not> gcrSorter b a) gcs"
  shows "\<exists>s chosen. selectBestCombo n gcs = Inr s
           \<and> specBestCombo gcs = Some chosen
           \<and> bestCombo s = Some (combo chosen)
           \<and> hasHetCombo s = (\<exists>gc \<in> set gcs. \<not> isHomozygous (combo gc))
           \<and> (if hasHetCombo s
               then firstHeterozygous gcs = Some chosen
                    \<and> (\<forall>gc \<in> set gcs. \<not> isHomozygous (combo gc) \<longrightarrow>
                          priorComboProb gc \<le> priorComboProb chosen)
               else chosen = hd gcs
                    \<and> (\<forall>gc \<in> set gcs. priorComboProb gc \<le> priorComboProb chosen))"
proof -
  obtain front rest where gcs: "gcs = front # rest" using assms(1) by (cases gcs) auto
  from selectBestCombo_Cons[of n front rest] obtain s where s:
    "selectBestCombo n gcs = Inr s"
    "hasHetCombo s = (firstHeterozygous gcs \<noteq> None)"
    "bestCombo s = map_option combo (specBestCombo gcs)"
    unfolding gcs by blast
  have het: "(firstHeterozygous gcs \<noteq> None) = (\<exists>gc \<in> set gcs. \<not> isHomozygous (combo gc))"
    by (auto simp: firstHeterozygous_def find_None_iff)
  show ?thesis
  proof (cases "firstHeterozygous gcs")
    case None
    then have c: "specBestCombo gcs = Some front" by (simp add: specBestCombo_def gcs)
    have "\<forall>gc \<in> set gcs. priorComboProb gc \<le> priorComboProb front"
      using sorted_front_is_top assms(2) unfolding gcs by blast
    then show ?thesis using s c None het by (auto simp: gcs)
  next
    case (Some h)
    then have c: "specBestCombo gcs = Some h" by (simp add: specBestCombo_def)
    have "\<forall>gc \<in> set gcs. \<not> isHomozygous (combo gc) \<longrightarrow> priorComboProb gc \<le> priorComboProb h"
      using sorted_firstHeterozygous_is_top[OF assms(2) Some] by blast
    then show ?thesis using s c Some het by auto
  qed
qed

theorem best_combo_is_first_heterozygous_or_front_witness:
  "[scored comboAA 0, scored comboAT (-1), scored comboTT (-2)] \<noteq> []
   \<and> sorted_wrt (\<lambda>a b. \<not> gcrSorter b a)
        [scored comboAA 0, scored comboAT (-1), scored comboTT (-2)]
   \<and> (\<exists>s. selectBestCombo 0 [scored comboAA 0, scored comboAT (-1), scored comboTT (-2)] = Inr s
          \<and> bestCombo s = Some comboAT \<and> hasHetCombo s)"
proof -
  have ne: "[scored comboAA 0, scored comboAT (-1), scored comboTT (-2)] \<noteq> []" by simp
  have so: "sorted_wrt (\<lambda>a b. \<not> gcrSorter b a)
              [scored comboAA 0, scored comboAT (-1), scored comboTT (-2)]"
    by (simp add: gcrSorter_def scored_sel)
  have sp: "specBestCombo [scored comboAA 0, scored comboAT (-1), scored comboTT (-2)]
              = Some (scored comboAT (-1))"
    by (simp add: specBestCombo_def firstHeterozygous_def isHomozygous_examples scored_sel)
  show ?thesis
    using ne so sp best_combo_is_first_heterozygous_or_front[OF ne so, of 0]
    by (auto simp: scored_sel isHomozygous_examples)
qed

text \<open>
  What lines 357-358 and 364-365 leave in \<^verbatim>\<open>bestComboProb\<close>: the total score of the front
  of the list in both branches, whichever combination is selected.
\<close>

lemma bestComboProb_is_front_score:
  "\<exists>s. selectBestCombo n (front # rest) = Inr s
       \<and> bestComboProb s = Some (priorComboProb front)"
  using selectBestCombo_Cons[of n front rest] by blast

text \<open>
  Claim C4 at a sorted list whose front is homozygous and whose second result is
  heterozygous: AA with total score 0, then AT with total score -1. The selected combination
  is AT, and the score reported with it is 0, the total score of AA (line 358 reads
  \<^verbatim>\<open>genotypeComboProbs.front().priorComboProb\<close>), not the -1 of AT.
\<close>

theorem best_combo_prob_not_own_score:
  "\<exists>s. selectBestCombo n [scored comboAA 0, scored comboAT (-1)] = Inr s
       \<and> bestCombo s = Some (combo (scored comboAT (-1)))
       \<and> bestComboProb s = Some 0
       \<and> priorComboProb (scored comboAT (-1)) = -1"
  using selectBestCombo_Cons[of n "scored comboAA 0" "[scored comboAT (-1)]"]
  by (auto simp: specBestCombo_def firstHeterozygous_def isHomozygous_examples scored_sel)

section \<open>The homozygous combinations in the output of the banded search\<close>

lemma set_includeCombo: "set (includeCombo c combos) = insert c (set combos)"
  by (auto simp: includeCombo_def)

lemma distinct_includeCombo: "distinct combos \<Longrightarrow> distinct (includeCombo c combos)"
  by (simp add: includeCombo_def)

lemma set_fold_includeCombo:
  "set (fold (\<lambda>a combos. includeCombo (f a) combos) as combos) = set combos \<union> f ` set as"
  by (induction as arbitrary: combos) (auto simp: set_includeCombo)

lemma distinct_fold_includeCombo:
  "distinct combos \<Longrightarrow> distinct (fold (\<lambda>a combos. includeCombo (f a) combos) as combos)"
  by (induction as arbitrary: combos) (simp_all add: distinct_includeCombo)

lemma set_banded:
  "set (bandedGenotypeCombinationsIncludingAllHomozygousCombos walk sgs as WB TB stepMax)
     = set (walk sgs WB TB stepMax) \<union> allHomozygousCombo sgs ` set as"
  by (simp add: bandedGenotypeCombinationsIncludingAllHomozygousCombos_def
      set_fold_includeCombo)

lemma allHomozygousCombo_genotypes:
  assumes "\<forall>sg \<in> set sgs. 1 \<le> samplePloidy sg" and "sg \<in> set (allHomozygousCombo sgs a)"
  shows "set (snd sg) = {a}"
  using assms by (auto simp: allHomozygousCombo_def)

lemma remdups_replicate_pos: "0 < p \<Longrightarrow> remdups (replicate p a) = [a]"
  by (induction p) auto

lemma isHomozygous_allHomozygousCombo:
  assumes "\<forall>sg \<in> set sgs. 1 \<le> samplePloidy sg"
  shows "isHomozygous (allHomozygousCombo sgs a)"
  using assms
  by (auto simp: isHomozygous_def homozygous_def allHomozygousCombo_def list_all_iff
      remdups_replicate_pos)

lemma allHomozygousCombo_inj:
  assumes "sgs \<noteq> []" and "\<forall>sg \<in> set sgs. 1 \<le> samplePloidy sg"
    and "allHomozygousCombo sgs a = allHomozygousCombo sgs b"
  shows "a = b"
proof -
  obtain sg rest where sgs: "sgs = sg # rest" using assms(1) by (cases sgs) auto
  then have "replicate (samplePloidy sg) a = replicate (samplePloidy sg) b"
    using assms(3) by (simp add: allHomozygousCombo_def)
  moreover have "samplePloidy sg \<noteq> 0" using assms(2) sgs by auto
  ultimately show ?thesis by (cases "samplePloidy sg") simp_all
qed

text \<open>
  Claim C6. Whatever the banded walk returns for the band width, the total band and the step
  cap, the output holds, for every candidate allele, the combination in which every sample is
  homozygous for that allele. For \<open>N\<close> distinct candidate alleles, at least one sample and
  ploidies of at least one, these are \<open>N\<close> different combinations classified homozygous, so
  the output holds at least \<open>N\<close> homozygous combinations.
\<close>

theorem homozygous_combos_always_included:
  assumes "distinct alleles" and "sgs \<noteq> []" and "\<forall>sg \<in> set sgs. 1 \<le> samplePloidy sg"
  shows "(\<forall>a \<in> set alleles.
            allHomozygousCombo sgs a
              \<in> set (bandedGenotypeCombinationsIncludingAllHomozygousCombos walk sgs alleles
                       WB TB stepMax)
            \<and> isHomozygous (allHomozygousCombo sgs a)
            \<and> (\<forall>sg \<in> set (allHomozygousCombo sgs a). set (snd sg) = {a}))
       \<and> length alleles
           \<le> length (filter isHomozygous
                (bandedGenotypeCombinationsIncludingAllHomozygousCombos walk sgs alleles
                   WB TB stepMax))"
proof -
  let ?out = "bandedGenotypeCombinationsIncludingAllHomozygousCombos walk sgs alleles
                WB TB stepMax"
  have each: "allHomozygousCombo sgs a \<in> set ?out
              \<and> isHomozygous (allHomozygousCombo sgs a)
              \<and> (\<forall>sg \<in> set (allHomozygousCombo sgs a). set (snd sg) = {a})"
    if "a \<in> set alleles" for a
    using that isHomozygous_allHomozygousCombo[OF assms(3)]
      allHomozygousCombo_genotypes[OF assms(3)]
    by (auto simp: set_banded)
  have inj: "inj_on (allHomozygousCombo sgs) (set alleles)"
    using allHomozygousCombo_inj[OF assms(2,3)] by (auto simp: inj_on_def)
  have "length alleles = card (set alleles)"
    using assms(1) by (simp add: distinct_card)
  also have "\<dots> = card (allHomozygousCombo sgs ` set alleles)"
    using inj by (simp add: card_image)
  also have "\<dots> \<le> card (set (filter isHomozygous ?out))"
    using each by (intro card_mono) auto
  also have "\<dots> \<le> length (filter isHomozygous ?out)"
    by (rule card_length)
  finally show ?thesis using each by blast
qed

theorem homozygous_combos_always_included_witness:
  "distinct [alleleA, alleleT]
   \<and> [(''sample1'', [([alleleA, alleleT], 0)])] \<noteq> []
   \<and> list_all (\<lambda>sg. 1 \<le> samplePloidy sg) [(''sample1'', [([alleleA, alleleT], 0 :: real)])]
   \<and> bandedGenotypeCombinationsIncludingAllHomozygousCombos (\<lambda>sgs WB TB stepMax. [])
        [(''sample1'', [([alleleA, alleleT], 0)])] [alleleA, alleleT] 0 0 0
       = [comboAA, comboTT]
   \<and> filter isHomozygous [comboAA, comboTT] = [comboAA, comboTT]"
proof -
  have d: "distinct [alleleA, alleleT]" using alleleA_neq_alleleT by simp
  have ne: "[(''sample1'', [([alleleA, alleleT], 0 :: real)])] \<noteq> []" by simp
  have p: "\<forall>sg \<in> set [(''sample1'', [([alleleA, alleleT], 0 :: real)])]. 1 \<le> samplePloidy sg"
    by (simp add: samplePloidy_def)
  have out: "bandedGenotypeCombinationsIncludingAllHomozygousCombos (\<lambda>sgs WB TB stepMax. [])
               [(''sample1'', [([alleleA, alleleT], 0)])] [alleleA, alleleT] 0 0 0
             = [comboAA, comboTT]"
    using alleleA_neq_alleleT
    by (simp add: bandedGenotypeCombinationsIncludingAllHomozygousCombos_def includeCombo_def
        allHomozygousCombo_def samplePloidy_def comboAA_def comboTT_def numeral_2_eq_2)
  show ?thesis
    using d ne p out isHomozygous_examples
      homozygous_combos_always_included[OF d ne p, of "\<lambda>sgs WB TB stepMax. []" 0 0 0]
    by simp
qed

section \<open>Skipped positions\<close>

lemma mainLoopBody_processed:
  assumes "\<not> skipCondition site"
  shows "mainLoopBody parameters laterStages site st =
           laterStages site
             ((DEBUG parameters (CoverageIs (countAlleles site))
                 (if trace parameters
                  then st\<lparr>total_sites := total_sites st + 1,
                          traceFile := traceFile st @ alleleTraceRecords site\<rparr>
                  else st\<lparr>total_sites := total_sites st + 1\<rparr>))
              \<lparr>processed_sites := processed_sites st + 1\<rparr>)"
  using assms by (auto simp: mainLoopBody_def skipCondition_def DEBUG_def Let_def)

text \<open>
  Claim C7. If the reference base is not one of A, C, G, T, or the position is outside all
  targets, or the coverage is zero, or the alternate observations are insufficient, or at most
  one genotype allele is viable, the turn of the main loop ends without entering the later
  stages (its result is the same whatever they would do), writes no record to the main output
  and no line to the failed-positions file, does not count the position as processed and
  counts it in the total. With the debug and trace flags off it changes nothing else.
\<close>

theorem skipped_position_is_silent:
  assumes "skipCondition site"
  shows "mainLoopBody parameters laterStages site st
           = mainLoopBody parameters laterStages' site st
       \<and> out (mainLoopBody parameters laterStages site st) = out st
       \<and> failedOut (mainLoopBody parameters laterStages site st) = failedOut st
       \<and> processed_sites (mainLoopBody parameters laterStages site st) = processed_sites st
       \<and> total_sites (mainLoopBody parameters laterStages site st) = total_sites st + 1
       \<and> (\<not> debug parameters \<and> \<not> trace parameters \<longrightarrow>
            mainLoopBody parameters laterStages site st
              = st\<lparr>total_sites := total_sites st + 1\<rparr>)"
proof -
  consider
      (base) "currentReferenceBaseString site \<notin> {''A'', ''C'', ''G'', ''T''}"
    | (target) "currentReferenceBaseString site \<in> {''A'', ''C'', ''G'', ''T''}"
        "\<not> inTarget site"
    | (coverage) "currentReferenceBaseString site \<in> {''A'', ''C'', ''G'', ''T''}"
        "inTarget site" "countAlleles site = 0"
    | (alternate) "currentReferenceBaseString site \<in> {''A'', ''C'', ''G'', ''T''}"
        "inTarget site" "countAlleles site \<noteq> 0" "\<not> sufficientAlternateObservations site"
    | (alleles) "currentReferenceBaseString site \<in> {''A'', ''C'', ''G'', ''T''}"
        "inTarget site" "countAlleles site \<noteq> 0" "sufficientAlternateObservations site"
        "length (viableGenotypeAlleles site) \<le> 1"
    using assms unfolding skipCondition_def by blast
  then show ?thesis
  proof cases
    case base
    then show ?thesis by (simp add: mainLoopBody_def Let_def)
  next
    case target
    then show ?thesis by (auto simp: mainLoopBody_def Let_def DEBUG_def)
  next
    case coverage
    then show ?thesis by (auto simp: mainLoopBody_def Let_def DEBUG_def)
  next
    case alternate
    then show ?thesis by (auto simp: mainLoopBody_def Let_def DEBUG_def)
  next
    case alleles
    then show ?thesis by (auto simp: mainLoopBody_def Let_def DEBUG_def)
  qed
qed

theorem skipped_position_is_silent_witness:
  "skipCondition siteN
   \<and> mainLoopBody jsonParameters writingStages siteN initialState
       = initialState\<lparr>total_sites := 1\<rparr>
   \<and> out (mainLoopBody jsonParameters writingStages siteN initialState) = []"
proof -
  have s: "skipCondition siteN" by (simp add: skipCondition_def siteN_def)
  have flags: "\<not> debug jsonParameters \<and> \<not> trace jsonParameters"
    by (simp add: jsonParameters_def)
  have "mainLoopBody jsonParameters writingStages siteN initialState
          = initialState\<lparr>total_sites := total_sites initialState + 1\<rparr>"
    using flags skipped_position_is_silent[OF s, where parameters = jsonParameters
        and laterStages = writingStages and laterStages' = writingStages
        and st = initialState]
    by blast
  then have "mainLoopBody jsonParameters writingStages siteN initialState
          = initialState\<lparr>total_sites := 1\<rparr>"
    by (simp add: initialState_def)
  then show ?thesis using s by (simp add: initialState_def)
qed

section \<open>Output of a processed position\<close>

lemma failedLines_alleles:
  "map (\<lambda>l. snd (snd (snd l))) (failedLines r)
     = filter (\<lambda>ga. alleleType ga \<noteq> ALLELE_REFERENCE) (genotypeAlleles r)"
  by (simp add: failedLines_def comp_def)

lemma isVcfRecord_jsonRecord: "\<not> isVcfRecord (jsonRecord r)"
  by (simp add: jsonRecord_def)

lemma isVcfRecord_vcfRecord: "isVcfRecord (vcfRecord r alt)"
  by (simp add: vcfRecord_def)

text \<open>
  Claim C10. All output of a processed position is inside the test of line 413 that output
  is not suppressed. There, with JSON output selected, exactly one JSON record is written
  whatever the probability of variation and the threshold are. A VCF record is written only
  when VCF output is selected and the probability of variation reaches the threshold. When it
  is below the threshold and a failed-positions file is configured, that file receives one
  line for every genotype allele whose type is not the reference type, in order, and the main
  output receives no VCF record (with JSON output it still receives the JSON record).
\<close>

theorem json_record_not_gated_by_threshold:
  "(\<not> suppressOutput p \<and> outputFormat p = ''json'' \<longrightarrow>
      (\<exists>failed. emitOutput p r = Inr ([jsonRecord r], failed)))
   \<and> (emitOutput p r = Inr (recs, failed) \<and> (\<exists>v \<in> set recs. isVcfRecord v) \<longrightarrow>
        \<not> suppressOutput p \<and> outputFormat p = ''vcf'' \<and> sitePVar r \<ge> PVL p)
   \<and> (\<not> suppressOutput p \<and> outputFormat p = ''vcf'' \<and> sitePVar r \<ge> PVL p
        \<and> alternates r \<noteq> [] \<longrightarrow>
        (\<exists>recs'. emitOutput p r = Inr (recs', []) \<and> recs' \<noteq> []
           \<and> (\<forall>v \<in> set recs'. isVcfRecord v)))
   \<and> (\<not> suppressOutput p \<and> sitePVar r < PVL p \<and> failedFile p \<noteq> [] \<longrightarrow>
        emitOutput p r
          = Inr (if outputFormat p = ''json'' then [jsonRecord r] else [], failedLines r)
        \<and> map (\<lambda>l. snd (snd (snd l))) (failedLines r)
            = filter (\<lambda>ga. alleleType ga \<noteq> ALLELE_REFERENCE) (genotypeAlleles r))
   \<and> (suppressOutput p \<longrightarrow> emitOutput p r = Inr ([], []))"
proof (intro conjI impI)
  assume "\<not> suppressOutput p \<and> outputFormat p = ''json''"
  then show "\<exists>failed. emitOutput p r = Inr ([jsonRecord r], failed)"
    by (simp add: emitOutput_def Let_def)
next
  assume a: "emitOutput p r = Inr (recs, failed) \<and> (\<exists>v \<in> set recs. isVcfRecord v)"
  then show "\<not> suppressOutput p"
    by (auto simp: emitOutput_def)
  from a show "outputFormat p = ''vcf''"
    by (auto simp: emitOutput_def Let_def isVcfRecord_jsonRecord
        split: if_splits list.splits)
  from a show "sitePVar r \<ge> PVL p"
    by (auto simp: emitOutput_def Let_def isVcfRecord_jsonRecord
        split: if_splits list.splits)
next
  assume "\<not> suppressOutput p \<and> outputFormat p = ''vcf'' \<and> sitePVar r \<ge> PVL p
            \<and> alternates r \<noteq> []"
  then show "\<exists>recs'. emitOutput p r = Inr (recs', []) \<and> recs' \<noteq> []
               \<and> (\<forall>v \<in> set recs'. isVcfRecord v)"
    by (auto simp: emitOutput_def Let_def isVcfRecord_vcfRecord split: list.splits)
next
  assume "\<not> suppressOutput p \<and> sitePVar r < PVL p \<and> failedFile p \<noteq> []"
  then show "emitOutput p r
          = Inr (if outputFormat p = ''json'' then [jsonRecord r] else [], failedLines r)"
    by (simp add: emitOutput_def Let_def not_le[symmetric])
next
  show "map (\<lambda>l. snd (snd (snd l))) (failedLines r)
            = filter (\<lambda>ga. alleleType ga \<noteq> ALLELE_REFERENCE) (genotypeAlleles r)"
    by (rule failedLines_alleles)
next
  assume "suppressOutput p"
  then show "emitOutput p r = Inr ([], [])" by (simp add: emitOutput_def)
qed

theorem json_record_not_gated_by_threshold_witness:
  "\<not> suppressOutput jsonParameters \<and> outputFormat jsonParameters = ''json''
   \<and> sitePVar lowReport < PVL jsonParameters \<and> failedFile jsonParameters \<noteq> []
   \<and> emitOutput jsonParameters lowReport
       = Inr ([jsonRecord lowReport], [(''chr1'', 41, 42, alleleT)])"
proof -
  have f: "failedLines lowReport = [(''chr1'', 41, 42, alleleT)]"
    by (simp add: failedLines_def lowReport_def genotypeAllele_def alleleT_def)
  have h: "\<not> suppressOutput jsonParameters \<and> sitePVar lowReport < PVL jsonParameters
             \<and> failedFile jsonParameters \<noteq> []"
    by (simp add: jsonParameters_def lowReport_def)
  have j: "outputFormat jsonParameters = ''json''"
    by (simp add: jsonParameters_def)
  note t = json_record_not_gated_by_threshold[of jsonParameters lowReport "[]" "[]"]
  have "emitOutput jsonParameters lowReport
          = Inr (if outputFormat jsonParameters = ''json'' then [jsonRecord lowReport] else [],
                 failedLines lowReport)"
    using t[THEN conjunct2, THEN conjunct2, THEN conjunct2, THEN conjunct1, THEN mp, OF h]
    by (rule conjunct1)
  then have "emitOutput jsonParameters lowReport
          = Inr ([jsonRecord lowReport], [(''chr1'', 41, 42, alleleT)])"
    by (simp add: j f)
  then show ?thesis using h j by (intro conjI) simp_all
qed

end
